theory Spec2Isabelle
  imports Main "HOL-Library.AList"
begin

section \<open>Expression nodes\<close>

text \<open>
  The expression layer (\<^verbatim>\<open>ibis.expr.operations\<close>, \<^verbatim>\<open>ibis.expr.datatypes\<close>) is
  consumed by the compiler as immutable, hashable values. Only the distinctions the
  compiler module itself tests are kept: of a data type, whether it is a struct, a map,
  an interval (with its unit) or an integer; of a node, its class, its arguments and its
  display name.
\<close>

datatype dtype = Struct | MapType | Interval string | Integer | OtherType string

datatype pyval = IntV int | StrV string | BoolV bool | NoneV

datatype node =
    Literal pyval dtype
  | ScalarParameter dtype nat
  | UnboundTable string
  | SQLQueryResult string
  | SQLStringView node string string
  | TableOp string "node list"
  | TableColumn node string
  | Alias node string
  | Less node node
  | LessEqual node node
  | GreaterEqual node node
  | Equals node node
  | And node node
  | Max node
  | Min node
  | Any node
  | NotAny node
  | All node
  | NotAll node
  | StringContains node node
  | StringFind node node
  | Cast node dtype
  | IntervalFromInteger node string
  | Bucket node "node list" string bool bool bool
  | CategoryLabel node "string list" "pyval option"
  | SearchedCase "node list" "node list" "node option"
  | SimpleCase node "node list" "node list" "node option"
  | ValueOp string "node list"

section \<open>Query contexts\<close>

text \<open>
  A \<^verbatim>\<open>QueryContext\<close> object has attributes that are mutated in place
  (\<^verbatim>\<open>table_refs\<close>, \<^verbatim>\<open>extracted_subexprs\<close>, \<^verbatim>\<open>subquery_memo\<close>,
  \<^verbatim>\<open>always_alias\<close>) and attributes that are fixed by the constructor
  (\<^verbatim>\<open>parent\<close>, \<^verbatim>\<open>params\<close>). The mutable attributes of all objects live in a
  heap, one frame per object; a reference to an object is its address together with the
  fixed attributes. Two references with the same parent share that parent's frame.
  A Python \<^verbatim>\<open>dict\<close> whose length is read is an association list with distinct keys,
  updated by \<open>AList.update\<close> (overwrite in place, or append).
\<close>

record frame =
  table_refs :: "(node \<times> string) list"
  extracted_subexprs :: "node set"
  subquery_memo :: "node \<rightharpoonup> string"
  always_alias :: bool

datatype ctx = QueryContext (addr: nat) (parent: "ctx option") (params: "node \<rightharpoonup> pyval")

record state =
  heap :: "nat \<Rightarrow> frame"
  next_addr :: nat

definition empty_frame :: frame where
  "empty_frame = \<lparr>table_refs = [], extracted_subexprs = {}, subquery_memo = Map.empty,
                  always_alias = False\<rparr>"

definition init_state :: state where
  "init_state = \<lparr>heap = (\<lambda>_. empty_frame), next_addr = 0\<rparr>"

text \<open>\<^verbatim>\<open>QueryContext(compiler, params=ps)\<close>: a fresh object without parent.\<close>

definition new_context :: "(node \<rightharpoonup> pyval) \<Rightarrow> state \<Rightarrow> ctx \<times> state" where
  "new_context ps s =
     (QueryContext (next_addr s) None ps,
      s\<lparr>heap := (heap s)(next_addr s := empty_frame), next_addr := Suc (next_addr s)\<rparr>)"

definition subcontext :: "ctx \<Rightarrow> state \<Rightarrow> ctx \<times> state" where
  "subcontext self s =
     (QueryContext (next_addr s) (Some self) (params self),
      s\<lparr>heap := (heap s)(next_addr s := empty_frame), next_addr := Suc (next_addr s)\<rparr>)"

fun top_context :: "ctx \<Rightarrow> ctx" where
  "top_context (QueryContext a None ps) = QueryContext a None ps"
| "top_context (QueryContext a (Some p) ps) = top_context p"

text \<open>\<^verbatim>\<open>_contexts(parents=...)\<close>: the context itself, then its ancestors, nearest first.\<close>

fun contexts :: "bool \<Rightarrow> ctx \<Rightarrow> ctx list" where
  "contexts parents (QueryContext a None ps) = [QueryContext a None ps]"
| "contexts parents (QueryContext a (Some p) ps) =
     QueryContext a (Some p) ps # (if parents then contexts parents p else [])"

definition refs_of :: "state \<Rightarrow> ctx \<Rightarrow> (node \<times> string) list" where
  "refs_of s c = table_refs (heap s (addr c))"

definition set_always_alias :: "ctx \<Rightarrow> state \<Rightarrow> state" where
  "set_always_alias self s =
     s\<lparr>heap := (heap s)(addr self := (heap s (addr self))\<lparr>always_alias := True\<rparr>)\<rparr>"

definition need_aliases :: "state \<Rightarrow> ctx \<Rightarrow> bool" where
  "need_aliases s self \<longleftrightarrow> always_alias (heap s (addr self)) \<or> length (refs_of s self) > 1"

definition has_ref :: "state \<Rightarrow> ctx \<Rightarrow> node \<Rightarrow> bool \<Rightarrow> bool" where
  "has_ref s self n parent_contexts \<longleftrightarrow>
     list_ex (\<lambda>c. map_of (refs_of s c) n \<noteq> None) (contexts parent_contexts self)"

definition set_ref :: "ctx \<Rightarrow> node \<Rightarrow> string \<Rightarrow> state \<Rightarrow> state" where
  "set_ref self n alias s =
     s\<lparr>heap := (heap s)(addr self :=
         (heap s (addr self))\<lparr>table_refs := AList.update n alias (refs_of s self)\<rparr>)\<rparr>"

definition is_extracted :: "state \<Rightarrow> ctx \<Rightarrow> node \<Rightarrow> bool" where
  "is_extracted s self n \<longleftrightarrow> n \<in> extracted_subexprs (heap s (addr (top_context self)))"

text \<open>\<^verbatim>\<open>dict.get\<close> returns \<^verbatim>\<open>None\<close> for a missing key; it does not raise.\<close>

definition get_ref :: "state \<Rightarrow> ctx \<Rightarrow> node \<Rightarrow> string option" where
  "get_ref s self n =
     (if is_extracted s self n then map_of (refs_of s (top_context self)) n
      else map_of (refs_of s self) n)"

subsection \<open>Alias names\<close>

text \<open>\<^verbatim>\<open>f't{i:d}'\<close>: the letter t followed by the decimal digits of \<open>i\<close>.\<close>

definition digit_char :: "nat \<Rightarrow> char" where
  "digit_char d = ''0123456789'' ! d"

fun decimal :: "nat \<Rightarrow> string" where
  "decimal n = (if n < 10 then [digit_char n] else decimal (n div 10) @ [digit_char (n mod 10)])"

declare decimal.simps [simp del]

definition alias_name :: "nat \<Rightarrow> string" where
  "alias_name i = CHR ''t'' # decimal i"

subsection \<open>make_alias and set_extracted\<close>

text \<open>
  The loop of \<^verbatim>\<open>make_alias\<close> over the ancestors (\<^verbatim>\<open>islice(self._contexts(), 1, None)\<close>):
  the first ancestor that has the node gives its alias; otherwise the sizes of the
  ancestors' tables are added to the counter.
\<close>

fun make_alias_loop :: "state \<Rightarrow> ctx \<Rightarrow> node \<Rightarrow> nat \<Rightarrow> ctx list \<Rightarrow> state" where
  "make_alias_loop s self n i [] = set_ref self n (alias_name i) s"
| "make_alias_loop s self n i (c # cs) =
     (case map_of (refs_of s c) n of
        Some alias \<Rightarrow> set_ref self n alias s
      | None \<Rightarrow> make_alias_loop s self n (i + length (refs_of s c)) cs)"

definition make_alias :: "ctx \<Rightarrow> node \<Rightarrow> state \<Rightarrow> state" where
  "make_alias self n s =
     make_alias_loop s self n (length (refs_of s self)) (tl (contexts True self))"

definition set_extracted :: "ctx \<Rightarrow> node \<Rightarrow> state \<Rightarrow> state" where
  "set_extracted self n s =
     make_alias self n
       (s\<lparr>heap := (heap s)(addr self :=
           (heap s (addr self))\<lparr>extracted_subexprs :=
              insert n (extracted_subexprs (heap s (addr self)))\<rparr>)\<rparr>)"


subsection \<open>Memoised subquery compilation\<close>

datatype optype =
    LiteralT | ScalarParameterT | UnboundTableT | SQLQueryResultT | SQLStringViewT
  | TableColumnT | AliasT | LessT | LessEqualT | GreaterEqualT | EqualsT | AndT
  | MaxT | MinT | AnyT | NotAnyT | AllT | NotAllT | StringContainsT | StringFindT
  | CastT | IntervalFromIntegerT | BucketT | CategoryLabelT | SearchedCaseT | SimpleCaseT
  | OtherTable string | OtherValue string

text \<open>
  The exceptions that leave the compiler module: the built-in \<^verbatim>\<open>KeyError\<close> (with the
  missing key) and \<^verbatim>\<open>IndexError\<close>, \<^verbatim>\<open>com.OperationNotDefinedError\<close> (its message
  is \<^verbatim>\<open>f'No translation rule for {type(op)}'\<close>, kept here as the class it names), and
  whatever an external collaborator raises.
\<close>

datatype error =
    KeyError node
  | IndexError
  | OperationNotDefinedError optype
  | ExternalError string

text \<open>
  \<^verbatim>\<open>self.compiler.to_sql(expr, ctx)\<close> belongs to the backend: it is a parameter. It may
  mutate any context and may raise.
\<close>

type_synonym compiler = "node \<Rightarrow> ctx \<Rightarrow> state \<Rightarrow> error + (string \<times> state)"

definition compile_subquery :: "compiler \<Rightarrow> ctx \<Rightarrow> node \<Rightarrow> state \<Rightarrow> error + (string \<times> state)" where
  "compile_subquery to_sql self n s = (case subcontext self s of (sub_ctx, s1) \<Rightarrow> to_sql n sub_ctx s1)"

text \<open>\<^verbatim>\<open>isinstance(node, (ops.SQLQueryResult, ops.SQLStringView))\<close> and \<^verbatim>\<open>node.query\<close>.\<close>

fun stored_query :: "node \<Rightarrow> string option" where
  "stored_query (SQLQueryResult q) = Some q"
| "stored_query (SQLStringView child nm q) = Some q"
| "stored_query _ = None"

definition memo_of :: "state \<Rightarrow> ctx \<Rightarrow> node \<rightharpoonup> string" where
  "memo_of s c = subquery_memo (heap s (addr c))"

definition memo_store :: "ctx \<Rightarrow> node \<Rightarrow> string \<Rightarrow> state \<Rightarrow> state" where
  "memo_store c n r s =
     s\<lparr>heap := (heap s)(addr c := (heap s (addr c))\<lparr>subquery_memo := (memo_of s c)(n \<mapsto> r)\<rparr>)\<rparr>"

definition get_compiled_expr :: "compiler \<Rightarrow> ctx \<Rightarrow> node \<Rightarrow> state \<Rightarrow> error + (string \<times> state)" where
  "get_compiled_expr to_sql self n s =
     (case memo_of s (top_context self) n of
        Some r \<Rightarrow> Inr (r, s)
      | None \<Rightarrow>
          (case (case stored_query n of
                   Some q \<Rightarrow> Inr (q, s)
                 | None \<Rightarrow> compile_subquery to_sql self n s) of
             Inl e \<Rightarrow> Inl e
           | Inr (result, s1) \<Rightarrow> Inr (result, memo_store (top_context self) n result s1)))"

section \<open>Rewrite rules\<close>

fun type_of :: "node \<Rightarrow> optype" where
  "type_of (Literal v t) = LiteralT"
| "type_of (ScalarParameter t k) = ScalarParameterT"
| "type_of (UnboundTable nm) = UnboundTableT"
| "type_of (SQLQueryResult q) = SQLQueryResultT"
| "type_of (SQLStringView c nm q) = SQLStringViewT"
| "type_of (TableOp cls args) = OtherTable cls"
| "type_of (TableColumn t nm) = TableColumnT"
| "type_of (Alias a nm) = AliasT"
| "type_of (Less a b) = LessT"
| "type_of (LessEqual a b) = LessEqualT"
| "type_of (GreaterEqual a b) = GreaterEqualT"
| "type_of (Equals a b) = EqualsT"
| "type_of (And a b) = AndT"
| "type_of (Max a) = MaxT"
| "type_of (Min a) = MinT"
| "type_of (Any a) = AnyT"
| "type_of (NotAny a) = NotAnyT"
| "type_of (All a) = AllT"
| "type_of (NotAll a) = NotAllT"
| "type_of (StringContains h n) = StringContainsT"
| "type_of (StringFind h n) = StringFindT"
| "type_of (Cast a t) = CastT"
| "type_of (IntervalFromInteger a u) = IntervalFromIntegerT"
| "type_of (Bucket a bs c u ov e) = BucketT"
| "type_of (CategoryLabel a ls nl) = CategoryLabelT"
| "type_of (SearchedCase cs rs d) = SearchedCaseT"
| "type_of (SimpleCase b cs rs d) = SimpleCaseT"
| "type_of (ValueOp cls args) = OtherValue cls"

text \<open>
  The expression API used by the rewrites is outside the module. A Python scalar given to
  a case builder becomes a literal node; \<^verbatim>\<open>expr.name(n)\<close> wraps the node in an alias
  node; \<^verbatim>\<open>has_name\<close>/\<^verbatim>\<open>get_name\<close> read the display name, taken as the parameter
  \<open>nm\<close> (\<open>None\<close> when the expression has no name); \<^verbatim>\<open>output_dtype\<close> is the parameter
  \<open>out\<close>. A case builder is the list of its branches in emission order.
\<close>

fun lit :: "pyval \<Rightarrow> node" where
  "lit (IntV i) = Literal (IntV i) Integer"
| "lit (StrV x) = Literal (StrV x) (OtherType ''string'')"
| "lit (BoolV b) = Literal (BoolV b) (OtherType ''boolean'')"
| "lit NoneV = Literal NoneV (OtherType ''null'')"

definition with_name :: "(node \<Rightarrow> string option) \<Rightarrow> node \<Rightarrow> node \<Rightarrow> node" where
  "with_name nm expr result = (case nm expr of Some x \<Rightarrow> Alias result x | None \<Rightarrow> result)"

type_synonym case_builder = "(node \<times> node) list"

definition case_when :: "case_builder \<Rightarrow> node \<Rightarrow> node \<Rightarrow> case_builder" where
  "case_when stmt cond result = stmt @ [(cond, result)]"

definition end_searched :: "case_builder \<Rightarrow> node option \<Rightarrow> node" where
  "end_searched stmt dflt = SearchedCase (map fst stmt) (map snd stmt) dflt"

definition end_simple :: "node \<Rightarrow> case_builder \<Rightarrow> node option \<Rightarrow> node" where
  "end_simple base stmt dflt = SimpleCase base (map fst stmt) (map snd stmt) dflt"

text \<open>
  The comparators of \<^verbatim>\<open>_bucket\<close>: \<^verbatim>\<open>l_cmp\<close> and \<^verbatim>\<open>r_cmp\<close>, chosen by
  \<^verbatim>\<open>op.closed == 'left'\<close>.
\<close>

definition l_cmp :: "string \<Rightarrow> node \<Rightarrow> node \<Rightarrow> node" where
  "l_cmp closed = (if closed = ''left'' then LessEqual else Less)"

definition r_cmp :: "string \<Rightarrow> node \<Rightarrow> node \<Rightarrow> node" where
  "r_cmp closed = (if closed = ''left'' then Less else LessEqual)"

text \<open>
  The loop of \<^verbatim>\<open>_bucket\<close> over \<^verbatim>\<open>enumerate(zip(op.buckets, op.buckets[1:]))\<close>, with
  the position \<open>j\<close> and the running \<^verbatim>\<open>bucket_id\<close>; it returns the builder and the
  next \<^verbatim>\<open>bucket_id\<close>.
\<close>

fun bucket_loop ::
  "node \<Rightarrow> string \<Rightarrow> bool \<Rightarrow> int \<Rightarrow> int \<Rightarrow> (node \<times> node) list \<Rightarrow> case_builder \<Rightarrow> int \<Rightarrow>
   case_builder \<times> int" where
  "bucket_loop arg closed close_extreme user_num_buckets j [] stmt bucket_id = (stmt, bucket_id)"
| "bucket_loop arg closed close_extreme user_num_buckets j ((lower, upper) # ps) stmt bucket_id =
     bucket_loop arg closed close_extreme user_num_buckets (j + 1) ps
       (if close_extreme \<and>
           ((closed = ''right'' \<and> j = 0) \<or> (closed = ''left'' \<and> j = user_num_buckets - 1))
        then case_when stmt (And (LessEqual lower arg) (LessEqual arg upper)) (lit (IntV bucket_id))
        else case_when stmt (And (l_cmp closed lower arg) (r_cmp closed arg upper))
               (lit (IntV bucket_id)))
       (bucket_id + 1)"

text \<open>
  The value of \<^verbatim>\<open>cmp\<close> under \<^verbatim>\<open>if op.include_under\<close> and under
  \<^verbatim>\<open>if op.include_over\<close>.
\<close>

definition under_cmp :: "string \<Rightarrow> bool \<Rightarrow> int \<Rightarrow> node \<Rightarrow> node \<Rightarrow> node" where
  "under_cmp closed close_extreme user_num_buckets =
     (if user_num_buckets > 0
      then (if close_extreme then Less else r_cmp closed)
      else (if closed = ''right'' then LessEqual else Less))"

definition over_cmp :: "string \<Rightarrow> bool \<Rightarrow> int \<Rightarrow> node \<Rightarrow> node \<Rightarrow> node" where
  "over_cmp closed close_extreme user_num_buckets =
     (if user_num_buckets > 0
      then (if close_extreme then Less else l_cmp closed)
      else (if closed = ''right'' then Less else LessEqual))"

text \<open>
  \<^verbatim>\<open>op.buckets[0]\<close> and \<^verbatim>\<open>op.buckets[-1]\<close> raise \<^verbatim>\<open>IndexError\<close> on an empty
  tuple; \<^verbatim>\<open>len(op.buckets) - 1\<close> is then \<open>-1\<close>.
\<close>

fun rewrite_bucket :: "(node \<Rightarrow> string option) \<Rightarrow> node \<Rightarrow> error + node" where
  "rewrite_bucket nm (Bucket arg buckets closed include_under include_over close_extreme) =
     (let user_num_buckets = int (length buckets) - 1
      in case (if include_under
               then (case buckets of
                       [] \<Rightarrow> Inl IndexError
                     | b0 # _ \<Rightarrow>
                         Inr (case_when []
                                (under_cmp closed close_extreme user_num_buckets arg b0)
                                (lit (IntV 0)),
                              1))
               else Inr ([], 0)) of
           Inl e \<Rightarrow> Inl e
         | Inr (stmt0, id0) \<Rightarrow>
            (case bucket_loop arg closed close_extreme user_num_buckets 0
                    (zip buckets (tl buckets)) stmt0 id0 of
               (stmt1, id1) \<Rightarrow>
                 (case (if include_over
                        then (if buckets = [] then Inl IndexError
                              else Inr (case_when stmt1
                                     (over_cmp closed close_extreme user_num_buckets
                                        (last buckets) arg)
                                     (lit (IntV id1))))
                        else Inr stmt1) of
                    Inl e \<Rightarrow> Inl e
                  | Inr stmt2 \<Rightarrow> Inr (with_name nm arg (end_searched stmt2 None)))))"

text \<open>The loop of \<^verbatim>\<open>_category_label\<close> over \<^verbatim>\<open>enumerate(op.labels)\<close>.\<close>

fun label_loop :: "int \<Rightarrow> string list \<Rightarrow> case_builder \<Rightarrow> case_builder" where
  "label_loop i [] stmt = stmt"
| "label_loop i (label # ls) stmt = label_loop (i + 1) ls (case_when stmt (lit (IntV i)) (lit (StrV label)))"

fun rewrite_category_label :: "(node \<Rightarrow> string option) \<Rightarrow> node \<Rightarrow> error + node" where
  "rewrite_category_label nm (CategoryLabel arg labels nulls) =
     Inr (with_name nm (CategoryLabel arg labels nulls)
            (end_simple arg (label_loop 0 labels [])
               (case nulls of None \<Rightarrow> None | Some v \<Rightarrow> Some (lit v))))"

fun any_expand :: "node \<Rightarrow> error + node" where
  "any_expand (Any arg) = Inr (Max arg)"

fun notany_expand :: "(node \<Rightarrow> dtype) \<Rightarrow> node \<Rightarrow> error + node" where
  "notany_expand out (NotAny arg) = Inr (Equals (Max arg) (Literal (IntV 0) (out arg)))"

fun all_expand :: "node \<Rightarrow> error + node" where
  "all_expand (All arg) = Inr (Min arg)"

fun notall_expand :: "(node \<Rightarrow> dtype) \<Rightarrow> node \<Rightarrow> error + node" where
  "notall_expand out (NotAll arg) = Inr (Equals (Min arg) (Literal (IntV 0) (out arg)))"

fun rewrite_cast :: "(node \<Rightarrow> dtype) \<Rightarrow> node \<Rightarrow> error + node" where
  "rewrite_cast out (Cast arg to) =
     (case to of
        Interval unit \<Rightarrow>
          (if out arg = Integer then Inr (IntervalFromInteger arg unit) else Inr (Cast arg to))
      | _ \<Rightarrow> Inr (Cast arg to))"

fun rewrite_string_contains :: "node \<Rightarrow> error + node" where
  "rewrite_string_contains (StringContains haystack needle) =
     Inr (GreaterEqual (StringFind haystack needle) (Literal (IntV 0) Integer))"

text \<open>The table \<^verbatim>\<open>ExprTranslator._rewrites\<close> as this module fills it.\<close>

type_synonym rewrite_table = "optype \<rightharpoonup> (node \<Rightarrow> error + node)"

definition module_rewrites :: "(node \<Rightarrow> string option) \<Rightarrow> (node \<Rightarrow> dtype) \<Rightarrow> rewrite_table" where
  "module_rewrites nm out =
     [BucketT \<mapsto> rewrite_bucket nm,
      CategoryLabelT \<mapsto> rewrite_category_label nm,
      AnyT \<mapsto> any_expand,
      NotAnyT \<mapsto> notany_expand out,
      AllT \<mapsto> all_expand,
      NotAllT \<mapsto> notall_expand out,
      CastT \<mapsto> rewrite_cast out,
      StringContainsT \<mapsto> rewrite_string_contains]"

section \<open>Expression translator\<close>

record translator =
  tr_node :: node
  tr_context :: ctx
  tr_named :: bool
  tr_permit_subquery :: bool

text \<open>
  The operation registry and the literal constructors \<^verbatim>\<open>ibis.struct\<close>, \<^verbatim>\<open>ibis.map\<close>,
  \<^verbatim>\<open>ibis.literal\<close> (followed by \<^verbatim>\<open>.op()\<close>) are owned by other layers: they are
  parameters. A registry entry is called as \<^verbatim>\<open>formatter(self, op)\<close>.
\<close>

type_synonym formatter = "translator \<Rightarrow> node \<Rightarrow> error + string"

type_synonym registry = "optype \<rightharpoonup> formatter"

datatype literal_kind = StructLiteral | MapLiteral | PlainLiteral

type_synonym literal_builder = "literal_kind \<Rightarrow> pyval \<Rightarrow> dtype \<Rightarrow> error + node"

text \<open>\<^verbatim>\<open>isinstance(op, ops.ScalarParameter)\<close> and \<^verbatim>\<open>isinstance(op, ops.TableNode)\<close>.\<close>

fun is_ScalarParameter :: "node \<Rightarrow> bool" where
  "is_ScalarParameter (ScalarParameter t k) = True"
| "is_ScalarParameter _ = False"

fun is_TableNode :: "node \<Rightarrow> bool" where
  "is_TableNode (UnboundTable nm) = True"
| "is_TableNode (SQLQueryResult q) = True"
| "is_TableNode (SQLStringView c nm q) = True"
| "is_TableNode (TableOp cls args) = True"
| "is_TableNode _ = False"

text \<open>
  \<^verbatim>\<open>_trans_param\<close> up to its last line: the literal node that stands for the
  parameter. \<^verbatim>\<open>self.context.params[op]\<close> raises \<^verbatim>\<open>KeyError(op)\<close> for a missing key.
\<close>

fun trans_param_literal :: "literal_builder \<Rightarrow> translator \<Rightarrow> node \<Rightarrow> error + node" where
  "trans_param_literal mk self (ScalarParameter dtype k) =
     (case params (tr_context self) (ScalarParameter dtype k) of
        None \<Rightarrow> Inl (KeyError (ScalarParameter dtype k))
      | Some raw_value \<Rightarrow>
          (if dtype = Struct then mk StructLiteral raw_value dtype
           else if dtype = MapType then mk MapLiteral raw_value dtype
           else mk PlainLiteral raw_value dtype))"

text \<open>
  \<^verbatim>\<open>translate\<close>; the last line of \<^verbatim>\<open>_trans_param\<close> is its recursive call. Whether the
  recursion ends depends on the literal constructors, so the result is optional: \<open>None\<close>
  stands for a call that does not return.
\<close>

text \<open>The rewrite step of \<^verbatim>\<open>translate\<close>: \<^verbatim>\<open>if type(op) in self._rewrites: op = ...\<close>.\<close>

definition apply_rewrite :: "rewrite_table \<Rightarrow> node \<Rightarrow> error + node" where
  "apply_rewrite rewrites op0 = (case rewrites (type_of op0) of Some f \<Rightarrow> f op0 | None \<Rightarrow> Inr op0)"

partial_function (option) translate ::
  "rewrite_table \<Rightarrow> registry \<Rightarrow> literal_builder \<Rightarrow> translator \<Rightarrow> node \<Rightarrow> (error + string) option" where
  "translate rewrites reg mk self op0 =
     (case apply_rewrite rewrites op0 of
        Inl e \<Rightarrow> Some (Inl e)
      | Inr op \<Rightarrow>
          (if is_ScalarParameter op then
             (case trans_param_literal mk self op of
                Inl e \<Rightarrow> Some (Inl e)
              | Inr literal \<Rightarrow> translate rewrites reg mk self literal)
           else if is_TableNode op then Some (Inr ''*'')
           else (case reg (type_of op) of
                   Some formatter \<Rightarrow> Some (formatter self op)
                 | None \<Rightarrow> Some (Inl (OperationNotDefinedError (type_of op))))))"

section \<open>Value of a rewritten expression\<close>

text \<open>
  Modelled from the spec: the SQL engine that evaluates the emitted CASE expression is not
  part of the repository. A CASE yields the result of its first branch whose condition is
  true, else its default, else null ("unmatched \<rightarrow> null"); comparisons and conjunction are
  those of SQL on integers, null when an operand is null. Leaves other than integer
  literals (columns) take their value from an environment.
\<close>

datatype sqlval = SInt int | SBool bool | SNull

fun sql_less :: "sqlval \<Rightarrow> sqlval \<Rightarrow> sqlval" where
  "sql_less (SInt a) (SInt b) = SBool (a < b)"
| "sql_less _ _ = SNull"

fun sql_less_equal :: "sqlval \<Rightarrow> sqlval \<Rightarrow> sqlval" where
  "sql_less_equal (SInt a) (SInt b) = SBool (a \<le> b)"
| "sql_less_equal _ _ = SNull"

fun sql_and :: "sqlval \<Rightarrow> sqlval \<Rightarrow> sqlval" where
  "sql_and (SBool a) (SBool b) = SBool (a \<and> b)"
| "sql_and (SBool False) _ = SBool False"
| "sql_and _ (SBool False) = SBool False"
| "sql_and _ _ = SNull"

fun eval_scalar :: "(node \<rightharpoonup> sqlval) \<Rightarrow> node \<Rightarrow> sqlval" where
  "eval_scalar env (Less a b) = sql_less (eval_scalar env a) (eval_scalar env b)"
| "eval_scalar env (LessEqual a b) = sql_less_equal (eval_scalar env a) (eval_scalar env b)"
| "eval_scalar env (And a b) = sql_and (eval_scalar env a) (eval_scalar env b)"
| "eval_scalar env (Literal (IntV i) t) = SInt i"
| "eval_scalar env e = (case env e of Some v \<Rightarrow> v | None \<Rightarrow> SNull)"

fun first_match :: "(node \<rightharpoonup> sqlval) \<Rightarrow> (node \<times> node) list \<Rightarrow> node option \<Rightarrow> sqlval" where
  "first_match env [] dflt = (case dflt of None \<Rightarrow> SNull | Some e \<Rightarrow> eval_scalar env e)"
| "first_match env ((c, r) # bs) dflt =
     (if eval_scalar env c = SBool True then eval_scalar env r else first_match env bs dflt)"

fun eval_case :: "(node \<rightharpoonup> sqlval) \<Rightarrow> node \<Rightarrow> sqlval" where
  "eval_case env (SearchedCase cs rs dflt) = first_match env (zip cs rs) dflt"
| "eval_case env (Alias e x) = eval_case env e"
| "eval_case env e = eval_scalar env e"

section \<open>Notions used in the statements\<close>

text \<open>The alias that the loop of \<^verbatim>\<open>make_alias\<close> hands to \<^verbatim>\<open>set_ref\<close>.\<close>

fun loop_alias :: "state \<Rightarrow> node \<Rightarrow> nat \<Rightarrow> ctx list \<Rightarrow> string" where
  "loop_alias s n i [] = alias_name i"
| "loop_alias s n i (c # cs) =
     (case map_of (refs_of s c) n of
        Some alias \<Rightarrow> alias
      | None \<Rightarrow> loop_alias s n (i + length (refs_of s c)) cs)"

text \<open>
  The alias entries visible from a context: its own table, then those of its ancestors;
  and the same entries listed from the root down to the context.
\<close>

definition visible :: "state \<Rightarrow> ctx \<Rightarrow> (node \<times> string) list" where
  "visible s c = concat (map (refs_of s) (contexts True c))"

definition root_first :: "state \<Rightarrow> ctx \<Rightarrow> (node \<times> string) list" where
  "root_first s c = concat (map (refs_of s) (rev (contexts True c)))"

text \<open>
  A compilation as a sequence of calls on the contexts of one tree. The contexts are
  numbered in the order of their creation, the root being number 0.
\<close>

datatype call = Subcontext nat | MakeAlias nat node

type_synonym world = "ctx list \<times> state"

definition start :: "(node \<rightharpoonup> pyval) \<Rightarrow> world" where
  "start ps = (case new_context ps init_state of (root, s) \<Rightarrow> ([root], s))"

fun exec :: "call \<Rightarrow> world \<Rightarrow> world" where
  "exec (Subcontext i) (cs, s) = (case subcontext (cs ! i) s of (c, s') \<Rightarrow> (cs @ [c], s'))"
| "exec (MakeAlias i n) (cs, s) = (cs, make_alias (cs ! i) n s)"

fun run :: "call list \<Rightarrow> world \<Rightarrow> world" where
  "run [] w = w"
| "run (x # xs) w = run xs (exec x w)"

text \<open>
  A call is disciplined when it names an existing context and, for \<^verbatim>\<open>make_alias\<close>, the
  node has no alias visible from the context yet and no context below it holds an alias.
\<close>

definition no_alias_below :: "ctx list \<Rightarrow> state \<Rightarrow> ctx \<Rightarrow> bool" where
  "no_alias_below cs s c \<longleftrightarrow>
     list_all (\<lambda>d. refs_of s d = []) (filter (\<lambda>d. c \<in> set (tl (contexts True d))) cs)"

fun disciplined :: "call \<Rightarrow> world \<Rightarrow> bool" where
  "disciplined (Subcontext i) (cs, s) \<longleftrightarrow> i < length cs"
| "disciplined (MakeAlias i n) (cs, s) \<longleftrightarrow>
     i < length cs \<and> \<not> has_ref s (cs ! i) n True \<and> no_alias_below cs s (cs ! i)"

fun disciplined_run :: "call list \<Rightarrow> world \<Rightarrow> bool" where
  "disciplined_run [] w \<longleftrightarrow> True"
| "disciplined_run (x # xs) w \<longleftrightarrow> disciplined x w \<and> disciplined_run xs (exec x w)"

text \<open>
  The invariant of disciplined runs. From every context, the aliases listed from the root
  down are \<open>t0\<close>, \<open>t1\<close>, \<dots> in this order; the contexts are different objects, all
  allocated, and the parent of a context of the tree is in the tree.
\<close>

definition numbered :: "state \<Rightarrow> ctx \<Rightarrow> bool" where
  "numbered s c \<longleftrightarrow> map snd (root_first s c) = map alias_name [0..<length (root_first s c)]"

definition parent_in :: "ctx list \<Rightarrow> ctx \<Rightarrow> bool" where
  "parent_in cs c \<longleftrightarrow> (case parent c of None \<Rightarrow> True | Some p \<Rightarrow> p \<in> set cs)"

definition tree_ok :: "world \<Rightarrow> bool" where
  "tree_ok w \<longleftrightarrow>
     (case w of (cs, s) \<Rightarrow>
        distinct (map addr cs) \<and> list_all (\<lambda>c. addr c < next_addr s) cs \<and>
        list_all (parent_in cs) cs \<and> list_all (numbered s) cs)"

text \<open>
  The lookup of an extracted node as the specification words it: a missing alias in the
  top context is the failure \<open>MalformedSubqueryReference\<close>.
\<close>

datatype spec_error = MalformedSubqueryReference

definition get_ref_claimed :: "state \<Rightarrow> ctx \<Rightarrow> node \<Rightarrow> spec_error + string option" where
  "get_ref_claimed s self n =
     (if is_extracted s self n
      then (case map_of (refs_of s (top_context self)) n of
              None \<Rightarrow> Inl MalformedSubqueryReference
            | Some alias \<Rightarrow> Inr (Some alias))
      else Inr (map_of (refs_of s self) n))"

text \<open>
  The comparator of the under-catch-all branch as the specification words it, for a number
  of interior intervals: the lower comparator of the intervals when there is more than one
  interval and \<open>close_extreme\<close> is unset; nothing is said about exactly one interval.
\<close>

definition under_cmp_claimed :: "string \<Rightarrow> bool \<Rightarrow> int \<Rightarrow> (node \<Rightarrow> node \<Rightarrow> node) option" where
  "under_cmp_claimed closed close_extreme intervals =
     (if intervals > 1
      then Some (if close_extreme then Less else (if closed = ''left'' then LessEqual else Less))
      else if intervals = 0
      then Some (if closed = ''right'' then LessEqual else Less)
      else None)"

text \<open>The branches of a rewritten CASE node, below its display name if it has one.\<close>

fun case_branches :: "node \<Rightarrow> (node \<times> node) list" where
  "case_branches (SearchedCase cs rs dflt) = zip cs rs"
| "case_branches (SimpleCase b cs rs dflt) = zip cs rs"
| "case_branches (Alias e x) = case_branches e"
| "case_branches e = []"

subsection \<open>A root context and one subcontext\<close>

definition root0 :: ctx where
  "root0 = fst (new_context Map.empty init_state)"

definition child0 :: ctx where
  "child0 = fst (subcontext root0 (snd (new_context Map.empty init_state)))"

definition state0 :: state where
  "state0 = snd (subcontext root0 (snd (new_context Map.empty init_state)))"

definition table_a :: node where
  "table_a = UnboundTable ''a''"

definition table_b :: node where
  "table_b = UnboundTable ''b''"

definition column_v :: node where
  "column_v = TableColumn (UnboundTable ''t'') ''v''"

definition boundaries :: "node list" where
  "boundaries = [lit (IntV 0), lit (IntV 10), lit (IntV 20)]"

text \<open>
  A state in which a node is in the extracted set of the root although the root's alias
  table has no entry for it.
\<close>

definition state_x :: state where
  "state_x = state0\<lparr>heap := (heap state0)(0 := empty_frame\<lparr>extracted_subexprs := {table_a}\<rparr>)\<rparr>"

text \<open>
  A disciplined run: a subcontext of the root is made, the root aliases one table, then
  the subcontext aliases another.
\<close>

definition calls0 :: "call list" where
  "calls0 = [Subcontext 0, MakeAlias 0 table_a, MakeAlias 1 table_b]"

text \<open>Two compilers: one that returns a fixed text, one that always raises.\<close>

definition select_one :: compiler where
  "select_one n c s = Inr (''SELECT 1'', s)"

definition failing_compiler :: compiler where
  "failing_compiler n c s = Inl (ExternalError ''unsupported'')"

text \<open>
  A translator on the root context, whose parameter mapping is empty; a literal
  constructor that always succeeds; expressions without display names, of integer type.
\<close>

definition translator0 :: translator where
  "translator0 = \<lparr>tr_node = ScalarParameter Integer 0, tr_context = root0, tr_named = False,
                   tr_permit_subquery = False\<rparr>"

definition literal_nodes :: literal_builder where
  "literal_nodes kind v t = Inr (Literal v t)"

definition no_names :: "node \<Rightarrow> string option" where
  "no_names e = None"

definition all_integer :: "node \<Rightarrow> dtype" where
  "all_integer e = Integer"

text \<open>Display names: a column has its own name, a category label the name \<open>label\<close>.\<close>

fun names0 :: "node \<Rightarrow> string option" where
  "names0 (TableColumn t x) = Some x"
| "names0 (CategoryLabel a ls nl) = Some ''label''"
| "names0 e = None"

text \<open>
  The value of a rewritten expression when the column \<open>x\<close> holds the integer \<open>v\<close>;
  nothing when the rewrite raised.
\<close>

definition value_at :: "node \<Rightarrow> int \<Rightarrow> error + node \<Rightarrow> sqlval option" where
  "value_at x v r = (case r of Inl e \<Rightarrow> None | Inr e \<Rightarrow> Some (eval_case [x \<mapsto> SInt v] e))"

section \<open>Basic facts\<close>

lemmas example_defs = root0_def child0_def state0_def table_a_def table_b_def
  new_context_def subcontext_def init_state_def empty_frame_def

lemmas alias_eval = alias_name_def decimal.simps digit_char_def

lemma digit_char_inj: "d < 10 \<Longrightarrow> e < 10 \<Longrightarrow> digit_char d = digit_char e \<Longrightarrow> d = e"
proof -
  assume a: "d < 10" "e < 10" "digit_char d = digit_char e"
  have "distinct ''0123456789''" by simp
  moreover have "d < length ''0123456789''" "e < length ''0123456789''" using a by simp_all
  ultimately show "d = e" using a(3) unfolding digit_char_def
    by (simp only: nth_eq_iff_index_eq)
qed

lemma decimal_nonempty: "decimal n \<noteq> []"
  by (subst decimal.simps) simp

lemma decimal_inj: "decimal m = decimal n \<Longrightarrow> m = n"
proof (induction m arbitrary: n rule: decimal.induct)
  case (1 m)
  show ?case
  proof (cases "m < 10")
    case True
    then have m: "decimal m = [digit_char m]" by (subst decimal.simps) simp
    show ?thesis
    proof (cases "n < 10")
      case n: True
      then have "decimal n = [digit_char n]" by (subst decimal.simps) simp
      with m "1.prems" True n show ?thesis by (auto dest: digit_char_inj)
    next
      case False
      then have "decimal n = decimal (n div 10) @ [digit_char (n mod 10)]"
        by (subst decimal.simps) simp
      with m "1.prems" decimal_nonempty [of "n div 10"] show ?thesis by auto
    qed
  next
    case False
    then have m: "decimal m = decimal (m div 10) @ [digit_char (m mod 10)]"
      by (subst decimal.simps) simp
    show ?thesis
    proof (cases "n < 10")
      case True
      then have "decimal n = [digit_char n]" by (subst decimal.simps) simp
      with m "1.prems" decimal_nonempty [of "m div 10"] show ?thesis by auto
    next
      case n: False
      then have "decimal n = decimal (n div 10) @ [digit_char (n mod 10)]"
        by (subst decimal.simps) simp
      with m "1.prems" have e: "decimal (m div 10) = decimal (n div 10)"
        and d: "digit_char (m mod 10) = digit_char (n mod 10)" by auto
      from "1.IH" [OF False e] have "m div 10 = n div 10" .
      moreover have "m mod 10 = n mod 10"
        by (rule digit_char_inj [OF _ _ d]) simp_all
      ultimately show ?thesis by (metis div_mult_mod_eq)
    qed
  qed
qed

lemma alias_name_inj: "alias_name i = alias_name j \<longleftrightarrow> i = j"
  by (auto simp: alias_name_def dest: decimal_inj)

lemma make_alias_loop_eq:
  "make_alias_loop s self n i cs = set_ref self n (loop_alias s n i cs) s"
  by (induction cs arbitrary: i) (auto split: option.splits)

lemma make_alias_eq:
  "make_alias self n s =
     set_ref self n (loop_alias s n (length (refs_of s self)) (tl (contexts True self))) s"
  by (simp add: make_alias_def make_alias_loop_eq)

lemma refs_of_set_ref:
  "refs_of (set_ref self n a s) c =
     (if addr c = addr self then AList.update n a (refs_of s self) else refs_of s c)"
  by (simp add: set_ref_def refs_of_def)

lemma extracted_set_ref [simp]:
  "extracted_subexprs (heap (set_ref self n a s) x) = extracted_subexprs (heap s x)"
  by (simp add: set_ref_def)

lemma extracted_make_alias [simp]:
  "extracted_subexprs (heap (make_alias self n s) x) = extracted_subexprs (heap s x)"
  by (simp add: make_alias_eq)

section \<open>Extracted subexpressions\<close>

text \<open>
  When \<^verbatim>\<open>set_extracted\<close> is called on the top context itself, the node is extracted
  for every context of the tree afterwards.
\<close>

lemma set_extracted_on_top:
  "addr (top_context c) = addr self \<Longrightarrow> is_extracted (set_extracted self n s) c n"
  by (simp add: is_extracted_def set_extracted_def)

text \<open>
  C1. \<^verbatim>\<open>set_extracted(node)\<close> is claimed to add the node to the top context's extracted
  set, so that \<^verbatim>\<open>is_extracted(node)\<close> holds from every context afterwards, and to give
  the node an alias in the calling context. Called on a subcontext, the code adds the node
  to the subcontext's own set, which \<^verbatim>\<open>is_extracted\<close> never reads: after
  \<^verbatim>\<open>child.set_extracted(a)\<close> the node is extracted neither from the child nor from the
  root, although it is in the child's set and has the alias \<open>t0\<close> in the child.
\<close>

theorem set_extracted_on_subcontext:
  "\<not> is_extracted (set_extracted child0 table_a state0) child0 table_a \<and>
   \<not> is_extracted (set_extracted child0 table_a state0) root0 table_a \<and>
   table_a \<in> extracted_subexprs (heap (set_extracted child0 table_a state0) (addr child0)) \<and>
   refs_of (set_extracted child0 table_a state0) child0 = [(table_a, ''t0'')]"
  by (simp add: example_defs set_extracted_def make_alias_def set_ref_def refs_of_def
      is_extracted_def alias_eval)

text \<open>
  C2, as amended. For a node in the top context's extracted set, \<^verbatim>\<open>get_ref\<close> called on
  any context of the tree returns what the top context's alias table holds for the node,
  whatever the local table holds: the recorded alias, or \<^verbatim>\<open>None\<close> when the top context
  records none. No error is raised.
\<close>

theorem get_ref_extracted:
  "is_extracted s c n \<Longrightarrow> top_context c' = top_context c \<Longrightarrow>
   get_ref s c' n = map_of (refs_of s (top_context c)) n"
  by (simp add: get_ref_def is_extracted_def)

theorem get_ref_extracted_witness:
  "is_extracted (set_extracted root0 table_a state0) root0 table_a \<and>
   top_context child0 = top_context root0 \<and>
   get_ref (set_extracted root0 table_a state0) child0 table_a = Some ''t0''"
proof -
  have h1: "is_extracted (set_extracted root0 table_a state0) root0 table_a"
    by (simp add: example_defs set_extracted_def make_alias_def set_ref_def refs_of_def
      is_extracted_def)
  have h2: "top_context child0 = top_context root0" by (simp add: example_defs)
  show ?thesis using get_ref_extracted [OF h1 h2] h1 h2
    by (simp add: example_defs set_extracted_def make_alias_def set_ref_def refs_of_def alias_eval)
qed

text \<open>
  C2 as stated fails: with the node extracted and no alias in the top context, the claimed
  lookup is the failure \<open>MalformedSubqueryReference\<close>, while \<^verbatim>\<open>get_ref\<close> returns
  \<^verbatim>\<open>None\<close>.
\<close>

theorem get_ref_extracted_counterexample:
  "is_extracted state_x child0 table_a \<and>
   get_ref state_x child0 table_a = None \<and>
   get_ref_claimed state_x child0 table_a = Inl MalformedSubqueryReference"
  by (simp add: state_x_def example_defs get_ref_def get_ref_claimed_def is_extracted_def
      refs_of_def)

section \<open>Alias assignment\<close>

lemma loop_alias_found:
  "list_ex (\<lambda>c. map_of (refs_of s c) n \<noteq> None) cs \<Longrightarrow> loop_alias s n i cs = loop_alias s n j cs"
  by (induction cs arbitrary: i j) (auto split: option.splits)

lemma loop_alias_cong:
  "(\<And>c. c \<in> set cs \<Longrightarrow> refs_of s' c = refs_of s c) \<Longrightarrow> loop_alias s' n i cs = loop_alias s n i cs"
  by (induction cs arbitrary: i) (auto split: option.splits)

lemma set_ref_idem: "set_ref self n a (set_ref self n a s) = set_ref self n a s"
  by (simp add: set_ref_def refs_of_def)

lemma length_update_present:
  "map_of al k \<noteq> None \<Longrightarrow> length (AList.update k v al) = length al"
  by (induction al) auto

lemma contexts_hd: "contexts True c = c # tl (contexts True c)"
proof (cases c)
  case (QueryContext a p ps)
  then show ?thesis by (cases p) simp_all
qed

text \<open>
  C4, as amended. When the node already has an alias in the context's own table or in one
  of its ancestors, and the context is a different object from each of its ancestors, a
  second \<^verbatim>\<open>make_alias(node)\<close> right after the first changes nothing: the state, and
  with it the alias recorded for the node, stays as the first call left it.
\<close>

theorem make_alias_twice:
  assumes d: "distinct (map addr (contexts True self))"
    and h: "has_ref s self n True"
  shows "make_alias self n (make_alias self n s) = make_alias self n s"
proof -
  let ?cs = "tl (contexts True self)"
  let ?a = "loop_alias s n (length (refs_of s self)) ?cs"
  let ?s' = "set_ref self n ?a s"
  have fresh: "addr c \<noteq> addr self" if "c \<in> set ?cs" for c
  proof -
    from d have "addr self \<notin> addr ` set ?cs" by (subst (asm) contexts_hd) simp
    with that show ?thesis by (metis imageI)
  qed
  have same: "refs_of ?s' c = refs_of s c" if "c \<in> set ?cs" for c
    using fresh [OF that] by (simp add: refs_of_set_ref)
  have "loop_alias ?s' n (length (refs_of ?s' self)) ?cs = ?a"
  proof (cases "list_ex (\<lambda>c. map_of (refs_of s c) n \<noteq> None) ?cs")
    case True
    have "loop_alias ?s' n (length (refs_of ?s' self)) ?cs
          = loop_alias s n (length (refs_of ?s' self)) ?cs"
      by (rule loop_alias_cong) (rule same)
    also have "\<dots> = ?a" by (rule loop_alias_found [OF True])
    finally show ?thesis .
  next
    case False
    with h have own: "map_of (refs_of s self) n \<noteq> None"
      by (subst (asm) has_ref_def, subst (asm) contexts_hd) (simp add: list_ex_iff)
    then have "length (refs_of ?s' self) = length (refs_of s self)"
      by (simp add: refs_of_set_ref length_update_present)
    moreover have "loop_alias ?s' n (length (refs_of s self)) ?cs = ?a"
      by (rule loop_alias_cong) (rule same)
    ultimately show ?thesis by simp
  qed
  then show ?thesis by (simp add: make_alias_eq set_ref_idem)
qed

theorem make_alias_twice_witness:
  "distinct (map addr (contexts True child0)) \<and>
   has_ref (make_alias root0 table_a state0) child0 table_a True \<and>
   refs_of (make_alias child0 table_a (make_alias root0 table_a state0)) child0 = [(table_a, ''t0'')] \<and>
   make_alias child0 table_a (make_alias child0 table_a (make_alias root0 table_a state0)) =
     make_alias child0 table_a (make_alias root0 table_a state0)"
proof -
  have h1: "distinct (map addr (contexts True child0))" by (simp add: example_defs)
  have h2: "has_ref (make_alias root0 table_a state0) child0 table_a True"
    by (simp add: example_defs has_ref_def make_alias_def set_ref_def refs_of_def)
  have h3: "refs_of (make_alias child0 table_a (make_alias root0 table_a state0)) child0 = [(table_a, ''t0'')]"
    by (simp add: example_defs make_alias_def set_ref_def refs_of_def alias_eval)
  show ?thesis using make_alias_twice [OF h1 h2] h1 h2 h3 by simp
qed

text \<open>
  C4 as stated fails for a node that has no alias yet: \<^verbatim>\<open>make_alias\<close> does not look
  the node up in the context's own table, so on a fresh root the first call records
  \<open>t0\<close> and the second call replaces it by \<open>t1\<close>.
\<close>

theorem make_alias_twice_counterexample:
  "refs_of (make_alias root0 table_a state0) root0 = [(table_a, ''t0'')] \<and>
   refs_of (make_alias root0 table_a (make_alias root0 table_a state0)) root0 = [(table_a, ''t1'')]"
  by (simp add: example_defs make_alias_def set_ref_def refs_of_def alias_eval)

section \<open>Memoised compilation\<close>

lemma memo_of_memo_store:
  "memo_of (memo_store c n r s) c' = (if addr c' = addr c then (memo_of s c)(n \<mapsto> r) else memo_of s c')"
  by (simp add: memo_of_def memo_store_def)

lemma get_compiled_expr_hit:
  "memo_of s (top_context c) n = Some r \<Longrightarrow> get_compiled_expr f c n s = Inr (r, s)"
  by (simp add: get_compiled_expr_def)

text \<open>
  C5. A first call of \<^verbatim>\<open>get_compiled_expr(node)\<close> (the node is not in the top
  context's memo) that returns a text has stored this text in the top context's memo under
  the node. For a node that carries its own query text (\<^verbatim>\<open>SQLQueryResult\<close>,
  \<^verbatim>\<open>SQLStringView\<close>) the text is that query and the state is otherwise untouched: no
  subcontext is made and the compiler is not run. For any other node the text is what the
  one run of \<^verbatim>\<open>_compile_subquery\<close> returned. Every later call, from any context with
  the same top context, in any state whose memo entry for the node is still the stored one,
  returns the same text and leaves the state as it is, whatever the compiler would do: the
  compiler is not run again.
\<close>

theorem get_compiled_expr_memoised:
  assumes miss: "memo_of s (top_context self) n = None"
    and ok: "get_compiled_expr to_sql self n s = Inr (r, s1)"
  shows "memo_of s1 (top_context self) n = Some r \<and>
    (\<forall>q. stored_query n = Some q \<longrightarrow> r = q \<and> s1 = memo_store (top_context self) n q s) \<and>
    (stored_query n = None \<longrightarrow>
       (\<exists>s'. compile_subquery to_sql self n s = Inr (r, s') \<and>
             s1 = memo_store (top_context self) n r s')) \<and>
    (\<forall>c f s2. top_context c = top_context self \<longrightarrow>
       memo_of s2 (top_context self) n = memo_of s1 (top_context self) n \<longrightarrow>
       get_compiled_expr f c n s2 = Inr (r, s2))"
proof -
  have a: "memo_of s1 (top_context self) n = Some r"
    using miss ok
    by (auto simp: get_compiled_expr_def memo_of_memo_store split: option.splits sum.splits)
  have b: "\<forall>q. stored_query n = Some q \<longrightarrow> r = q \<and> s1 = memo_store (top_context self) n q s"
    using miss ok by (auto simp: get_compiled_expr_def split: option.splits sum.splits)
  have c: "stored_query n = None \<longrightarrow>
       (\<exists>s'. compile_subquery to_sql self n s = Inr (r, s') \<and>
             s1 = memo_store (top_context self) n r s')"
    using miss ok by (auto simp: get_compiled_expr_def split: option.splits sum.splits)
  have d: "\<forall>c f s2. top_context c = top_context self \<longrightarrow>
       memo_of s2 (top_context self) n = memo_of s1 (top_context self) n \<longrightarrow>
       get_compiled_expr f c n s2 = Inr (r, s2)"
    using a by (simp add: get_compiled_expr_hit)
  from a b c d show ?thesis by blast
qed

theorem get_compiled_expr_memoised_witness:
  "memo_of state0 (top_context child0) table_a = None \<and>
   get_compiled_expr select_one child0 table_a state0 =
     Inr (''SELECT 1'', memo_store root0 table_a ''SELECT 1'' (snd (subcontext child0 state0))) \<and>
   get_compiled_expr failing_compiler root0 table_a
       (memo_store root0 table_a ''SELECT 1'' (snd (subcontext child0 state0))) =
     Inr (''SELECT 1'', memo_store root0 table_a ''SELECT 1'' (snd (subcontext child0 state0)))"
proof -
  let ?s1 = "memo_store root0 table_a ''SELECT 1'' (snd (subcontext child0 state0))"
  have t: "top_context child0 = root0" "top_context root0 = root0" by (simp_all add: example_defs)
  have h1: "memo_of state0 (top_context child0) table_a = None"
    by (simp add: example_defs memo_of_def)
  have h2: "get_compiled_expr select_one child0 table_a state0 = Inr (''SELECT 1'', ?s1)"
  proof -
    have m: "memo_of state0 root0 table_a = None" using h1 by (simp only: t)
    have q: "stored_query table_a = None" by (simp add: table_a_def)
    have c: "compile_subquery select_one child0 table_a state0 =
        Inr (''SELECT 1'', snd (subcontext child0 state0))"
      by (simp add: compile_subquery_def select_one_def split: prod.split)
    show ?thesis by (simp add: get_compiled_expr_def t m q c)
  qed
  from get_compiled_expr_memoised [OF h1 h2]
  have "get_compiled_expr failing_compiler root0 table_a ?s1 = Inr (''SELECT 1'', ?s1)"
    using t by simp
  with h1 h2 show ?thesis by simp
qed

section \<open>Translation failures\<close>

lemma translate_after_rewrite:
  "apply_rewrite rewrites op0 = Inr op \<Longrightarrow>
   translate rewrites reg mk self op0 =
     (if is_ScalarParameter op then
        (case trans_param_literal mk self op of
           Inl e \<Rightarrow> Some (Inl e)
         | Inr literal \<Rightarrow> translate rewrites reg mk self literal)
      else if is_TableNode op then Some (Inr ''*'')
      else (case reg (type_of op) of
              Some formatter \<Rightarrow> Some (formatter self op)
            | None \<Rightarrow> Some (Inl (OperationNotDefinedError (type_of op)))))"
  by (subst translate.simps) simp

lemma module_rewrites_parameter:
  "apply_rewrite (module_rewrites nm out) (ScalarParameter t k) = Inr (ScalarParameter t k)"
  by (simp add: apply_rewrite_def module_rewrites_def)

text \<open>
  C6. For a scalar parameter node that has no value in the parameter mapping of the
  translator's context, \<^verbatim>\<open>translate\<close> (with the rewrite table of this module, any
  registry and any literal constructors) returns, and returns the failure raised by
  \<^verbatim>\<open>self.context.params[op]\<close>: the \<^verbatim>\<open>KeyError\<close> that carries the parameter node. No
  text is produced.
\<close>

theorem translate_unbound_parameter:
  "params (tr_context self) (ScalarParameter t k) = None \<Longrightarrow>
   translate (module_rewrites nm out) reg mk self (ScalarParameter t k) =
     Some (Inl (KeyError (ScalarParameter t k)))"
  by (simp add: translate_after_rewrite [OF module_rewrites_parameter])

theorem translate_unbound_parameter_witness:
  "params (tr_context translator0) (ScalarParameter Integer 0) = None \<and>
   translate (module_rewrites no_names all_integer) Map.empty literal_nodes translator0
       (ScalarParameter Integer 0) =
     Some (Inl (KeyError (ScalarParameter Integer 0)))"
proof -
  have h: "params (tr_context translator0) (ScalarParameter Integer 0) = None"
    by (simp add: translator0_def example_defs)
  show ?thesis using translate_unbound_parameter [OF h] h by simp
qed

text \<open>
  C7. When the node that leaves the rewrite step is neither a scalar parameter nor a table
  node and its class has no registry entry, \<^verbatim>\<open>translate\<close> fails with
  \<^verbatim>\<open>OperationNotDefinedError\<close> naming that class. A node whose class has no rewrite
  entry leaves the rewrite step unchanged.
\<close>

theorem translate_operation_not_defined:
  "apply_rewrite rewrites op0 = Inr op \<Longrightarrow> \<not> is_ScalarParameter op \<Longrightarrow> \<not> is_TableNode op \<Longrightarrow>
   reg (type_of op) = None \<Longrightarrow>
   translate rewrites reg mk self op0 = Some (Inl (OperationNotDefinedError (type_of op)))"
  by (simp add: translate_after_rewrite)

theorem translate_operation_not_defined_witness:
  "apply_rewrite (module_rewrites no_names all_integer) (Any column_v) = Inr (Max column_v) \<and>
   \<not> is_ScalarParameter (Max column_v) \<and> \<not> is_TableNode (Max column_v) \<and>
   (Map.empty :: registry) (type_of (Max column_v)) = None \<and>
   translate (module_rewrites no_names all_integer) Map.empty literal_nodes translator0
       (Any column_v) =
     Some (Inl (OperationNotDefinedError MaxT))"
proof -
  have h1: "apply_rewrite (module_rewrites no_names all_integer) (Any column_v) = Inr (Max column_v)"
    by (simp add: apply_rewrite_def module_rewrites_def)
  have h2: "\<not> is_ScalarParameter (Max column_v)" by simp
  have h3: "\<not> is_TableNode (Max column_v)" by simp
  have h4: "(Map.empty :: registry) (type_of (Max column_v)) = None" by simp
  show ?thesis using translate_operation_not_defined [OF h1 h2 h3 h4] h1 by simp
qed

section \<open>Bucket and category-label rewrites\<close>

lemmas bucket_eval = boundaries_def column_v_def value_at_def with_name_def end_searched_def
  case_when_def l_cmp_def r_cmp_def under_cmp_def over_cmp_def

text \<open>
  C8. For the boundaries 0, 10, 20 over a column: with \<open>closed = left\<close> and no flags the
  rewrite emits the branches \<open>0 \<le> v \<and> v < 10\<close> (bucket 0) and \<open>10 \<le> v \<and> v < 20\<close>
  (bucket 1) and no default, so the value 0 falls in bucket 0, 10 in bucket 1 and 20 yields
  null; with \<open>include_over\<close> the value 20 falls in bucket 2; with \<open>closed = right\<close>
  and \<open>close_extreme\<close> the first branch is \<open>0 \<le> v \<and> v \<le> 10\<close> and the value 0 falls
  in bucket 0.
\<close>

theorem bucket_boundary_cases:
  "rewrite_bucket nm (Bucket column_v boundaries ''left'' False False False) =
     Inr (with_name nm column_v
       (SearchedCase
          [And (LessEqual (lit (IntV 0)) column_v) (Less column_v (lit (IntV 10))),
           And (LessEqual (lit (IntV 10)) column_v) (Less column_v (lit (IntV 20)))]
          [lit (IntV 0), lit (IntV 1)] None)) \<and>
   value_at column_v 0 (rewrite_bucket nm (Bucket column_v boundaries ''left'' False False False)) = Some (SInt 0) \<and>
   value_at column_v 10 (rewrite_bucket nm (Bucket column_v boundaries ''left'' False False False)) = Some (SInt 1) \<and>
   value_at column_v 20 (rewrite_bucket nm (Bucket column_v boundaries ''left'' False False False)) = Some SNull \<and>
   value_at column_v 20 (rewrite_bucket nm (Bucket column_v boundaries ''left'' False True False)) = Some (SInt 2) \<and>
   rewrite_bucket nm (Bucket column_v boundaries ''right'' False False True) =
     Inr (with_name nm column_v
       (SearchedCase
          [And (LessEqual (lit (IntV 0)) column_v) (LessEqual column_v (lit (IntV 10))),
           And (Less (lit (IntV 10)) column_v) (LessEqual column_v (lit (IntV 20)))]
          [lit (IntV 0), lit (IntV 1)] None)) \<and>
   value_at column_v 0 (rewrite_bucket nm (Bucket column_v boundaries ''right'' False False True)) = Some (SInt 0)"
  by (simp add: bucket_eval split: option.split)

lemma bucket_loop_extends:
  "\<exists>ext. fst (bucket_loop arg closed ce n j ps stmt i) = stmt @ ext"
proof (induction ps arbitrary: j stmt i)
  case Nil
  show ?case by simp
next
  case (Cons p ps)
  obtain lower upper where p: "p = (lower, upper)" by (cases p)
  have "\<exists>x. bucket_loop arg closed ce n j (p # ps) stmt i =
      bucket_loop arg closed ce n (j + 1) ps (stmt @ [x]) (i + 1)"
  proof (cases "ce \<and> ((closed = ''right'' \<and> j = 0) \<or> (closed = ''left'' \<and> j = n - 1))")
    case True
    then have "bucket_loop arg closed ce n j (p # ps) stmt i =
      bucket_loop arg closed ce n (j + 1) ps
        (stmt @ [(And (LessEqual lower arg) (LessEqual arg upper), lit (IntV i))]) (i + 1)"
      unfolding p bucket_loop.simps case_when_def by simp
    then show ?thesis ..
  next
    case False
    then have "bucket_loop arg closed ce n j (p # ps) stmt i =
      bucket_loop arg closed ce n (j + 1) ps
        (stmt @ [(And (l_cmp closed lower arg) (r_cmp closed arg upper), lit (IntV i))]) (i + 1)"
      unfolding p bucket_loop.simps case_when_def by auto
    then show ?thesis ..
  qed
  then obtain x where step: "bucket_loop arg closed ce n j (p # ps) stmt i =
      bucket_loop arg closed ce n (j + 1) ps (stmt @ [x]) (i + 1)" ..
  from Cons.IH [of "j + 1" "stmt @ [x]" "i + 1"]
  obtain ext where "fst (bucket_loop arg closed ce n (j + 1) ps (stmt @ [x]) (i + 1)) =
      (stmt @ [x]) @ ext" ..
  with step have "fst (bucket_loop arg closed ce n j (p # ps) stmt i) = stmt @ (x # ext)"
    by simp
  then show ?case ..
qed

lemma case_branches_searched:
  "case_branches (with_name nm x (end_searched stmt d)) = stmt"
  by (simp add: with_name_def end_searched_def zip_map_fst_snd split: option.split)

text \<open>
  C9, as amended. With \<open>include_under\<close> set and at least one boundary, the rewrite
  succeeds and its first branch is bucket 0, comparing the value with the first boundary:
  with at least one interior interval, strictly less when \<open>close_extreme\<close> is set and
  otherwise the upper comparator of the intervals (\<open><\<close> for \<open>closed = left\<close>,
  \<open>\<le>\<close> otherwise); with no interior interval, \<open>\<le>\<close> for \<open>closed = right\<close> and
  \<open><\<close> otherwise.
\<close>

theorem bucket_under_branch:
  "\<exists>e. rewrite_bucket nm (Bucket arg (b0 # bs) closed True include_over close_extreme) = Inr e \<and>
       hd (case_branches e) =
         ((if bs = [] then (if closed = ''right'' then LessEqual else Less)
           else if close_extreme then Less
           else if closed = ''left'' then Less else LessEqual) arg b0, lit (IntV 0))"
proof -
  let ?n = "int (length (b0 # bs)) - 1"
  let ?u = "(under_cmp closed close_extreme ?n arg b0, lit (IntV 0))"
  obtain stmt1 id1 where l: "bucket_loop arg closed close_extreme ?n 0 (zip (b0 # bs) (tl (b0 # bs)))
      [?u] 1 = (stmt1, id1)" by (cases "bucket_loop arg closed close_extreme ?n 0 (zip (b0 # bs) (tl (b0 # bs))) [?u] 1")
  from bucket_loop_extends [of arg closed close_extreme ?n 0 "zip (b0 # bs) (tl (b0 # bs))" "[?u]" 1] l
  obtain ext where e: "stmt1 = ?u # ext" by auto
  have u: "under_cmp closed close_extreme ?n =
      (if bs = [] then (if closed = ''right'' then LessEqual else Less)
           else if close_extreme then Less
           else if closed = ''left'' then Less else LessEqual)"
    by (cases bs) (simp_all add: under_cmp_def r_cmp_def)
  show ?thesis
    using l e u
    by (cases include_over) (simp_all add: case_when_def case_branches_searched del: bucket_loop.simps)
qed

text \<open>
  C9 as stated fails: for \<open>closed = left\<close>, two interior intervals and
  \<open>close_extreme\<close> unset it names the lower comparator \<open>\<le>\<close>, while the branch that
  the rewrite emits is \<open>v < 0\<close>.
\<close>

theorem bucket_under_branch_counterexample:
  "rewrite_bucket (\<lambda>_. None) (Bucket column_v boundaries ''left'' True False False) =
     Inr (SearchedCase
       [Less column_v (lit (IntV 0)),
        And (LessEqual (lit (IntV 0)) column_v) (Less column_v (lit (IntV 10))),
        And (LessEqual (lit (IntV 10)) column_v) (Less column_v (lit (IntV 20)))]
       [lit (IntV 0), lit (IntV 1), lit (IntV 2)] None) \<and>
   under_cmp_claimed ''left'' False 2 = Some LessEqual"
  by (simp add: bucket_eval under_cmp_claimed_def)

text \<open>
  C10. When the bucketed argument has a display name, a bucket rewrite that succeeds
  yields the CASE node under that name; when a category-label node has a display name, its
  rewrite yields the CASE node under the name of the category-label node.
\<close>

theorem rewrites_keep_names:
  "(nm arg = Some x \<longrightarrow>
      rewrite_bucket nm (Bucket arg buckets closed include_under include_over close_extreme) = Inr r \<longrightarrow>
      (\<exists>cs rs. r = Alias (SearchedCase cs rs None) x)) \<and>
   (nm (CategoryLabel a labels nulls) = Some y \<longrightarrow>
      (\<exists>cs rs d. rewrite_category_label nm (CategoryLabel a labels nulls) =
          Inr (Alias (SimpleCase a cs rs d) y)))"
  by (auto simp: with_name_def end_searched_def end_simple_def Let_def
      split: if_splits sum.splits prod.splits list.splits)

theorem rewrites_keep_names_witness:
  "names0 column_v = Some ''v'' \<and>
   rewrite_bucket names0 (Bucket column_v boundaries ''left'' False False False) =
     Inr (Alias (SearchedCase
          [And (LessEqual (lit (IntV 0)) column_v) (Less column_v (lit (IntV 10))),
           And (LessEqual (lit (IntV 10)) column_v) (Less column_v (lit (IntV 20)))]
          [lit (IntV 0), lit (IntV 1)] None) ''v'') \<and>
   names0 (CategoryLabel column_v [''low'', ''high''] None) = Some ''label'' \<and>
   rewrite_category_label names0 (CategoryLabel column_v [''low'', ''high''] None) =
     Inr (Alias (SimpleCase column_v [lit (IntV 0), lit (IntV 1)]
          [lit (StrV ''low''), lit (StrV ''high'')] None) ''label'')"
proof -
  let ?r = "Alias (SearchedCase
          [And (LessEqual (lit (IntV 0)) column_v) (Less column_v (lit (IntV 10))),
           And (LessEqual (lit (IntV 10)) column_v) (Less column_v (lit (IntV 20)))]
          [lit (IntV 0), lit (IntV 1)] None) ''v''"
  have h1: "names0 column_v = Some ''v''" by (simp add: column_v_def)
  have h2: "rewrite_bucket names0 (Bucket column_v boundaries ''left'' False False False) = Inr ?r"
    by (simp add: boundaries_def column_v_def with_name_def end_searched_def case_when_def
        l_cmp_def r_cmp_def)
  have h3: "names0 (CategoryLabel column_v [''low'', ''high''] None) = Some ''label''" by simp
  have h4: "rewrite_category_label names0 (CategoryLabel column_v [''low'', ''high''] None) =
     Inr (Alias (SimpleCase column_v [lit (IntV 0), lit (IntV 1)]
          [lit (StrV ''low''), lit (StrV ''high'')] None) ''label'')"
    by (simp add: with_name_def end_simple_def case_when_def)
  show ?thesis
    using rewrites_keep_names [where nm = names0 and arg = column_v and x = "''v''"
        and buckets = boundaries and closed = "''left''" and include_under = False
        and include_over = False and close_extreme = False and r = ?r and a = column_v
        and labels = "[''low'', ''high'']" and nulls = None and y = "''label''"]
      h1 h2 h3 h4
    by simp
qed

section \<open>Alias uniqueness\<close>

subsection \<open>The chain of a context\<close>

lemma contexts_Some [simp]:
  "parent c = Some p \<Longrightarrow> contexts True c = c # contexts True p"
  by (cases c) simp

lemma contexts_None [simp]:
  "parent c = None \<Longrightarrow> contexts True c = [c]"
  by (cases c) simp

lemma root_first_Some:
  "parent c = Some p \<Longrightarrow> root_first s c = root_first s p @ refs_of s c"
  by (simp add: root_first_def)

lemma root_first_None:
  "parent c = None \<Longrightarrow> root_first s c = refs_of s c"
  by (simp add: root_first_def)

lemma root_first_tl:
  "root_first s c = concat (map (refs_of s) (rev (tl (contexts True c)))) @ refs_of s c"
  by (cases "parent c") (simp_all add: root_first_def)

lemma ancestor_shorter:
  "e \<in> set (tl (contexts True c)) \<Longrightarrow> length (contexts True e) < length (contexts True c)"
proof (induction c)
  case (QueryContext a po ps)
  show ?case
  proof (cases po)
    case None
    with QueryContext.prems show ?thesis by simp
  next
    case (Some p)
    with QueryContext.prems have "e \<in> set (contexts True p)" by simp
    then have "e = p \<or> e \<in> set (tl (contexts True p))"
      by (subst (asm) contexts_hd) auto
    then show ?thesis
    proof
      assume "e = p"
      with Some show ?thesis by simp
    next
      assume "e \<in> set (tl (contexts True p))"
      with QueryContext.IH [of p] Some show ?thesis by simp
    qed
  qed
qed

lemma ancestor_differs: "e \<in> set (tl (contexts True c)) \<Longrightarrow> e \<noteq> c"
  using ancestor_shorter by blast

lemma chain_in_tree:
  "list_all (parent_in cs) cs \<Longrightarrow> c \<in> set cs \<Longrightarrow> set (contexts True c) \<subseteq> set cs"
proof (induction c)
  case (QueryContext a po ps)
  show ?case
  proof (cases po)
    case None
    with QueryContext.prems show ?thesis by simp
  next
    case (Some p)
    with QueryContext.prems have "p \<in> set cs"
      by (auto simp: list_all_iff parent_in_def)
    with QueryContext.IH [of p] QueryContext.prems Some show ?thesis by simp
  qed
qed

lemma root_first_cong:
  "(\<And>e. e \<in> set (contexts True c) \<Longrightarrow> refs_of s' e = refs_of s e) \<Longrightarrow>
   root_first s' c = root_first s c"
  unfolding root_first_def by (rule arg_cong [where f = concat]) simp

lemma addr_differs:
  "distinct (map addr cs) \<Longrightarrow> c \<in> set cs \<Longrightarrow> e \<in> set cs \<Longrightarrow> e \<noteq> c \<Longrightarrow> addr e \<noteq> addr c"
  by (auto simp: distinct_map inj_on_def)

subsection \<open>One call of make_alias on a fresh node\<close>

lemma loop_alias_fresh:
  "\<forall>e\<in>set cs. map_of (refs_of s e) n = None \<Longrightarrow>
   loop_alias s n i cs = alias_name (i + length (concat (map (refs_of s) cs)))"
  by (induction cs arbitrary: i) (simp_all add: add.assoc)

lemma update_fresh: "map_of al k = None \<Longrightarrow> AList.update k v al = al @ [(k, v)]"
  by (induction al) (auto split: if_splits)

lemma sum_list_map_rev: "sum_list (map f (rev xs)) = (sum_list (map f xs) :: nat)"
  by (induction xs) simp_all

lemma length_root_first:
  "length (root_first s c) =
     length (refs_of s c) + length (concat (map (refs_of s) (tl (contexts True c))))"
  by (simp add: root_first_tl length_concat sum_list_map_rev)

lemma make_alias_fresh:
  assumes "\<not> has_ref s c n True"
  shows "make_alias c n s = set_ref c n (alias_name (length (root_first s c))) s"
    and "refs_of (make_alias c n s) e =
      (if addr e = addr c then refs_of s c @ [(n, alias_name (length (root_first s c)))]
       else refs_of s e)"
proof -
  from assms have none: "\<forall>e\<in>set (contexts True c). map_of (refs_of s e) n = None"
    by (simp add: has_ref_def list_ex_iff)
  then have anc: "\<forall>e\<in>set (tl (contexts True c)). map_of (refs_of s e) n = None"
    by (subst (asm) contexts_hd) simp
  from none have own: "map_of (refs_of s c) n = None"
    by (subst (asm) contexts_hd) simp
  show m: "make_alias c n s = set_ref c n (alias_name (length (root_first s c))) s"
    by (simp add: make_alias_eq loop_alias_fresh [OF anc] length_root_first)
  show "refs_of (make_alias c n s) e =
      (if addr e = addr c then refs_of s c @ [(n, alias_name (length (root_first s c)))]
       else refs_of s e)"
    by (simp add: m refs_of_set_ref update_fresh [OF own])
qed

lemma numbered_snoc:
  "numbered s c \<Longrightarrow> root_first s' c = root_first s c @ [(n, alias_name (length (root_first s c)))] \<Longrightarrow>
   numbered s' c"
  by (simp add: numbered_def)

lemma below_same_root_first:
  assumes closed: "list_all (parent_in cs) cs"
    and empty: "\<And>d. d \<in> set cs \<Longrightarrow> c \<in> set (tl (contexts True d)) \<Longrightarrow> refs_of s d = []"
  shows "d \<in> set cs \<Longrightarrow> c \<in> set (tl (contexts True d)) \<Longrightarrow> root_first s d = root_first s c"
proof (induction d)
  case (QueryContext a po ps)
  let ?d = "QueryContext a po ps"
  show ?case
  proof (cases po)
    case None
    with QueryContext.prems show ?thesis by simp
  next
    case (Some p)
    then have par: "parent ?d = Some p" by simp
    from QueryContext.prems have e: "refs_of s ?d = []" by (rule empty)
    from closed QueryContext.prems(1) par have p: "p \<in> set cs"
      by (auto simp: list_all_iff parent_in_def)
    from QueryContext.prems(2) Some have "c \<in> set (contexts True p)" by simp
    then have "c = p \<or> c \<in> set (tl (contexts True p))"
      by (subst (asm) contexts_hd) auto
    then have "root_first s p = root_first s c"
    proof
      assume "c = p" then show ?thesis by simp
    next
      assume "c \<in> set (tl (contexts True p))"
      with QueryContext.IH [of p] Some p show ?thesis by simp
    qed
    with e show ?thesis by (simp add: root_first_Some [OF par])
  qed
qed

lemma make_alias_tree_ok:
  assumes ok: "tree_ok (cs, s)"
    and i: "i < length cs"
    and fresh: "\<not> has_ref s (cs ! i) n True"
    and below: "no_alias_below cs s (cs ! i)"
  shows "tree_ok (cs, make_alias (cs ! i) n s)"
proof -
  let ?c = "cs ! i"
  let ?s' = "make_alias ?c n s"
  let ?k = "length (root_first s ?c)"
  from ok have dist: "distinct (map addr cs)"
    and alloc: "list_all (\<lambda>c. addr c < next_addr s) cs"
    and closed: "list_all (parent_in cs) cs"
    and num: "list_all (numbered s) cs"
    by (simp_all add: tree_ok_def)
  from i have c: "?c \<in> set cs" by simp
  note refs = make_alias_fresh(2) [OF fresh]
  have nxt: "next_addr ?s' = next_addr s"
    by (simp add: make_alias_fresh(1) [OF fresh] set_ref_def)
  have other: "refs_of ?s' e = refs_of s e" if "e \<in> set cs" "e \<noteq> ?c" for e
    using addr_differs [OF dist c that] by (simp add: refs)
  have anc_in: "e \<in> set cs" if "e \<in> set (contexts True d)" "d \<in> set cs" for e d
    using chain_in_tree [OF closed that(2)] that(1) by blast
  have at_c: "root_first ?s' ?c = root_first s ?c @ [(n, alias_name ?k)]"
  proof -
    have "refs_of ?s' e = refs_of s e" if "e \<in> set (tl (contexts True ?c))" for e
    proof (rule other)
      from that have "e \<in> set (contexts True ?c)" by (subst contexts_hd) simp
      then show "e \<in> set cs" using c by (rule anc_in)
      from that show "e \<noteq> ?c" by (rule ancestor_differs)
    qed
    then have m: "map (refs_of ?s') (rev (tl (contexts True ?c))) =
        map (refs_of s) (rev (tl (contexts True ?c)))" by simp
    have own: "refs_of ?s' ?c = refs_of s ?c @ [(n, alias_name ?k)]" by (simp add: refs)
    have "root_first ?s' ?c =
        concat (map (refs_of ?s') (rev (tl (contexts True ?c)))) @ refs_of ?s' ?c"
      by (rule root_first_tl)
    also have "\<dots> = (concat (map (refs_of s) (rev (tl (contexts True ?c)))) @ refs_of s ?c) @
        [(n, alias_name ?k)]"
      by (simp only: m own append_assoc)
    also have "concat (map (refs_of s) (rev (tl (contexts True ?c)))) @ refs_of s ?c =
        root_first s ?c"
      by (rule root_first_tl [symmetric])
    finally show ?thesis .
  qed
  have num_c: "numbered ?s' ?c"
    using num c at_c by (auto simp: list_all_iff intro: numbered_snoc)
  have "numbered ?s' d" if d: "d \<in> set cs" for d
  proof (cases "?c \<in> set (contexts True d)")
    case False
    have "root_first ?s' d = root_first s d"
    proof (rule root_first_cong)
      fix e assume e: "e \<in> set (contexts True d)"
      with False have "e \<noteq> ?c" by blast
      with anc_in [OF e d] show "refs_of ?s' e = refs_of s e" by (rule other)
    qed
    with num d show ?thesis by (simp add: list_all_iff numbered_def)
  next
    case True
    show ?thesis
    proof (cases "d = ?c")
      case True
      with num_c show ?thesis by simp
    next
      case False
      with True have strict: "?c \<in> set (tl (contexts True d))"
        by (subst (asm) contexts_hd) auto
      have "refs_of ?s' d' = []" if "d' \<in> set cs" "?c \<in> set (tl (contexts True d'))" for d'
      proof -
        from below that have "refs_of s d' = []"
          by (auto simp: no_alias_below_def list_all_iff)
        moreover from that(2) have "d' \<noteq> ?c" using ancestor_differs by blast
        ultimately show ?thesis using other [OF that(1)] by simp
      qed
      with closed have "root_first ?s' d = root_first ?s' ?c"
        using d strict by (rule below_same_root_first)
      with num_c show ?thesis by (simp add: numbered_def)
    qed
  qed
  with dist alloc closed nxt show ?thesis
    by (simp add: tree_ok_def list_all_iff)
qed

subsection \<open>A new subcontext\<close>

lemma subcontext_tree_ok:
  assumes ok: "tree_ok (cs, s)" and i: "i < length cs"
  shows "tree_ok (exec (Subcontext i) (cs, s))"
proof -
  let ?c = "cs ! i"
  let ?new = "QueryContext (next_addr s) (Some ?c) (params ?c)"
  let ?s' = "s\<lparr>heap := (heap s)(next_addr s := empty_frame), next_addr := Suc (next_addr s)\<rparr>"
  have ex: "exec (Subcontext i) (cs, s) = (cs @ [?new], ?s')"
    by (simp add: subcontext_def)
  from ok have dist: "distinct (map addr cs)"
    and alloc: "list_all (\<lambda>c. addr c < next_addr s) cs"
    and closed: "list_all (parent_in cs) cs"
    and num: "list_all (numbered s) cs"
    by (simp_all add: tree_ok_def)
  from i have c: "?c \<in> set cs" by simp
  have old: "refs_of ?s' e = refs_of s e" if "e \<in> set cs" for e
    using alloc that by (auto simp: refs_of_def list_all_iff)
  have same: "root_first ?s' d = root_first s d" if "d \<in> set cs" for d
  proof (rule root_first_cong)
    fix e assume "e \<in> set (contexts True d)"
    with chain_in_tree [OF closed that] have "e \<in> set cs" by blast
    then show "refs_of ?s' e = refs_of s e" by (rule old)
  qed
  have r1: "root_first ?s' ?new = root_first ?s' ?c @ refs_of ?s' ?new"
    by (rule root_first_Some) simp
  have r2: "refs_of ?s' ?new = []" by (simp add: refs_of_def empty_frame_def)
  have new: "root_first ?s' ?new = root_first s ?c"
    by (simp only: r1 r2 same [OF c] append_Nil2)
  have d1: "distinct (map addr (cs @ [?new]))"
    using dist alloc by (auto simp: list_all_iff)
  have d2: "list_all (\<lambda>c. addr c < next_addr ?s') (cs @ [?new])"
    using alloc by (auto simp: list_all_iff)
  have d3: "list_all (parent_in (cs @ [?new])) (cs @ [?new])"
    using closed c by (auto simp: list_all_iff parent_in_def split: option.splits)
  have d4: "list_all (numbered ?s') (cs @ [?new])"
    using num c same new by (auto simp: list_all_iff numbered_def)
  from d1 d2 d3 d4 show ?thesis unfolding ex by (simp add: tree_ok_def)
qed

subsection \<open>Runs\<close>

lemma start_tree_ok: "tree_ok (start ps)"
  by (simp add: start_def new_context_def init_state_def tree_ok_def parent_in_def numbered_def
      root_first_def refs_of_def empty_frame_def)

lemma exec_tree_ok: "tree_ok w \<Longrightarrow> disciplined x w \<Longrightarrow> tree_ok (exec x w)"
proof (cases w)
  case (Pair cs s)
  assume "tree_ok w" "disciplined x w"
  with Pair show ?thesis
    by (cases x) (auto simp del: exec.simps(1) simp: subcontext_tree_ok make_alias_tree_ok)
qed

lemma run_tree_ok: "tree_ok w \<Longrightarrow> disciplined_run xs w \<Longrightarrow> tree_ok (run xs w)"
  by (induction xs arbitrary: w) (simp_all add: exec_tree_ok)

lemma distinct_concat_rev:
  "distinct (concat (map g (rev xs))) = distinct (concat (map g xs))"
  by (induction xs) auto

lemma numbered_distinct: "numbered s c \<Longrightarrow> distinct (map snd (visible s c))"
proof -
  assume "numbered s c"
  then have "distinct (map snd (root_first s c))"
    by (simp add: numbered_def distinct_map inj_on_def alias_name_inj)
  then have "distinct (concat (map (map snd \<circ> refs_of s) (rev (contexts True c))))"
    by (simp add: root_first_def map_concat)
  then have "distinct (concat (map (map snd \<circ> refs_of s) (contexts True c)))"
    by (simp only: distinct_concat_rev)
  then show ?thesis by (simp add: visible_def map_concat)
qed

text \<open>
  C3, as amended. Take a tree of contexts grown from a root by \<^verbatim>\<open>subcontext()\<close> calls
  and any sequence of \<^verbatim>\<open>make_alias\<close> calls in which each call is made for a node that
  has no alias visible from the called context, at a time when no context below the called
  one holds an alias. Then the alias strings visible from any context of the tree (its own
  table and those of its ancestors) are pairwise distinct.
\<close>

theorem alias_uniqueness:
  assumes "disciplined_run calls (start ps)"
    and "c \<in> set (fst (run calls (start ps)))"
  shows "distinct (map snd (visible (snd (run calls (start ps))) c))"
proof -
  obtain cs s where w: "run calls (start ps) = (cs, s)" by (cases "run calls (start ps)")
  from run_tree_ok [OF start_tree_ok assms(1)] w have "list_all (numbered s) cs"
    by (simp add: tree_ok_def)
  with assms(2) w have "numbered s c" by (simp add: list_all_iff)
  then show ?thesis unfolding w by (simp add: numbered_distinct)
qed

text \<open>
  C3 as stated fails when a context receives an alias after one of its subcontexts did:
  the subcontext aliases one table as \<open>t0\<close>, then the root, whose own table is still
  empty, aliases a different table as \<open>t0\<close> too, and both are visible from the
  subcontext.
\<close>

theorem alias_uniqueness_counterexample:
  "table_a \<noteq> table_b \<and>
   visible (make_alias root0 table_b (make_alias child0 table_a state0)) child0 =
     [(table_a, ''t0''), (table_b, ''t0'')]"
  by (simp add: example_defs visible_def make_alias_def set_ref_def refs_of_def alias_eval)

theorem alias_uniqueness_witness:
  "disciplined_run calls0 (start Map.empty) \<and>
   child0 \<in> set (fst (run calls0 (start Map.empty))) \<and>
   visible (snd (run calls0 (start Map.empty))) child0 = [(table_b, ''t1''), (table_a, ''t0'')] \<and>
   distinct (map snd (visible (snd (run calls0 (start Map.empty))) child0))"
proof -
  have r: "run calls0 (start Map.empty) =
      ([root0, child0], make_alias child0 table_b (make_alias root0 table_a state0))"
    by (simp add: calls0_def start_def example_defs)
  have h1: "disciplined_run calls0 (start Map.empty)"
    by (simp add: calls0_def start_def example_defs has_ref_def no_alias_below_def
        make_alias_def set_ref_def refs_of_def)
  have h2: "child0 \<in> set (fst (run calls0 (start Map.empty)))" by (simp add: r)
  have v: "visible (snd (run calls0 (start Map.empty))) child0 =
      [(table_b, ''t1''), (table_a, ''t0'')]"
    unfolding r
    by (simp add: example_defs visible_def make_alias_def set_ref_def refs_of_def alias_eval)
  show ?thesis using alias_uniqueness [OF h1 h2] h1 h2 v by simp
qed

end
